theory Spec2Isabelle
  imports Main
begin

section \<open>The lexical scanner of parse/lexer.go\<close>

subsection \<open>Tokens and runes\<close>

text \<open>
  The token kinds, in the order of the \<open>iota\<close> block of the source.
\<close>

datatype Token =
    ILLEGAL
  | EOF
  | WS
  | IDENT
  | STATUS_OPEN
  | STATUS_CLOSE
  | SLASH
  | SEMICOLON
  | COLON
  | ASTERISK
  | COMMA
  | DOT
  | HASHTAG
  | BRACKET
  | CURRENCY_SIGN
  | PARAGRAPH
  | AMPERSAND
  | EQUALS
  | TILDE
  | AT
  | PERCENT
  | DASH
  | UNDERSCORE

text \<open>
  A Go \<open>rune\<close> is an \<open>int32\<close> holding a Unicode code point. The scanner only compares
  runes (no arithmetic), so a rune is modelled as its integer value. The input is the
  sequence of runes that \<open>ReadRune\<close> decodes from the underlying bytes (a byte that is not
  part of a valid UTF-8 sequence arrives as U+FFFD), and a lexeme is the sequence of the
  code points of the Go string: \<open>string(ch)\<close> and \<open>buf.WriteRune(ch)\<close> of a rune that
  \<open>ReadRune\<close> delivered are exactly that one character.
\<close>

type_synonym rune = int

text \<open>\<open>var eof = rune(0)\<close>\<close>

definition eof :: rune where
  "eof = 0"

subsection \<open>The embedded buffered reader\<close>

text \<open>
  \<open>scanner\<close> embeds a \<open>*bufio.Reader\<close> of the Go standard library. Over a finite input
  whose end stays the end (a read error counts as the end) the reader is its position
  in the decoded stream, kept here as the runes still to be delivered (\<open>pending\<close>), and
  the one-slot pushback: \<open>lastRune\<close> holds the rune of the latest \<open>ReadRune\<close> while
  \<open>UnreadRune\<close> is still allowed (\<open>lastRuneSize \<ge> 0\<close> in bufio), and \<open>None\<close> after a
  failed read or after an \<open>UnreadRune\<close> (\<open>lastRuneSize = -1\<close>).
\<close>

record scanner =
  pending :: "rune list"
  lastRune :: "rune option"

definition NewScanner :: "rune list \<Rightarrow> scanner" where
  "NewScanner r = \<lparr>pending = r, lastRune = None\<rparr>"

text \<open>
  \<open>ReadRune\<close> returns the rune and whether it failed (\<open>err != nil\<close>, here: the stream is
  exhausted). \<open>UnreadRune\<close> steps back over the rune last read; when the latest operation
  was not a successful \<open>ReadRune\<close> it returns an error, which the scanner ignores, and
  leaves the reader as it is.
\<close>

definition ReadRune :: "scanner \<Rightarrow> (rune \<times> bool) \<times> scanner" where
  "ReadRune s =
     (case pending s of
        [] \<Rightarrow> ((0, True), s\<lparr>lastRune := None\<rparr>)
      | c # cs \<Rightarrow> ((c, False), \<lparr>pending = cs, lastRune = Some c\<rparr>))"

definition UnreadRune :: "scanner \<Rightarrow> scanner" where
  "UnreadRune s =
     (case lastRune s of
        None \<Rightarrow> s
      | Some c \<Rightarrow> \<lparr>pending = c # pending s, lastRune = None\<rparr>)"

subsection \<open>Character classes\<close>

definition isWhitespace :: "rune \<Rightarrow> bool" where
  "isWhitespace ch = (ch = 32 \<or> ch = 9 \<or> ch = 10)"

text \<open>
  The seven diacritics are U+00E4, U+00D6, U+00F6, U+00C4, U+00FC, U+00DC and U+00DF.
\<close>

definition isLetter :: "rune \<Rightarrow> bool" where
  "isLetter ch =
     ((ch \<ge> 97 \<and> ch \<le> 122) \<or>
      (ch \<ge> 65 \<and> ch \<le> 90) \<or>
      ch = 228 \<or> ch = 214 \<or>
      ch = 246 \<or> ch = 196 \<or>
      ch = 252 \<or> ch = 220 \<or>
      ch = 223)"

definition isDigit :: "rune \<Rightarrow> bool" where
  "isDigit ch = (ch \<ge> 48 \<and> ch \<le> 57)"

subsection \<open>Reading\<close>

text \<open>\<open>read\<close> returns \<open>eof\<close> when \<open>ReadRune\<close> fails, else the rune.\<close>

definition read :: "scanner \<Rightarrow> rune \<times> scanner" where
  "read s =
     (case ReadRune s of
        ((r, err), s') \<Rightarrow> if err then (eof, s') else (r, s'))"

lemma read_Nil: "pending s = [] \<Longrightarrow> read s = (eof, s\<lparr>lastRune := None\<rparr>)"
  by (simp add: read_def ReadRune_def)

lemma read_Cons: "pending s = c # cs \<Longrightarrow> read s = (c, \<lparr>pending = cs, lastRune = Some c\<rparr>)"
  by (simp add: read_def ReadRune_def)

lemma read_length:
  "read s = (ch, s1) \<Longrightarrow> ch \<noteq> eof \<Longrightarrow> length (pending s1) < length (pending s)"
  by (cases "pending s") (auto simp: read_Nil read_Cons)

subsection \<open>The run rules\<close>

text \<open>
  The \<open>for\<close> loop of \<open>scanWhitespace\<close>, with the buffer as accumulator. Each round
  reads one rune; the loop ends at \<open>eof\<close> (nothing is pushed back) or at the first rune
  that is not whitespace (which is pushed back).
\<close>

function scanWhitespace_loop :: "scanner \<Rightarrow> rune list \<Rightarrow> rune list \<times> scanner" where
  "scanWhitespace_loop s buf =
     (case read s of
        (ch, s1) \<Rightarrow>
          if ch = eof then (buf, s1)
          else if \<not> isWhitespace ch then (buf, UnreadRune s1)
          else scanWhitespace_loop s1 (buf @ [ch]))"
  by pat_completeness auto
termination
  by (relation "measure (\<lambda>(s, buf). length (pending s))") (auto intro: read_length [OF sym])

declare scanWhitespace_loop.simps [simp del]

definition scanWhitespace :: "scanner \<Rightarrow> (Token \<times> rune list) \<times> scanner" where
  "scanWhitespace s =
     (case read s of
        (ch0, s0) \<Rightarrow>
          (case scanWhitespace_loop s0 [ch0] of
             (buf, s1) \<Rightarrow> ((WS, buf), s1)))"

function scanIdent_loop :: "scanner \<Rightarrow> rune list \<Rightarrow> rune list \<times> scanner" where
  "scanIdent_loop s buf =
     (case read s of
        (ch, s1) \<Rightarrow>
          if ch = eof then (buf, s1)
          else if \<not> isLetter ch \<and> \<not> isDigit ch then (buf, UnreadRune s1)
          else scanIdent_loop s1 (buf @ [ch]))"
  by pat_completeness auto
termination
  by (relation "measure (\<lambda>(s, buf). length (pending s))") (auto intro: read_length [OF sym])

declare scanIdent_loop.simps [simp del]

definition scanIdent :: "scanner \<Rightarrow> (Token \<times> rune list) \<times> scanner" where
  "scanIdent s =
     (case read s of
        (ch0, s0) \<Rightarrow>
          (case scanIdent_loop s0 [ch0] of
             (buf, s1) \<Rightarrow> ((IDENT, buf), s1)))"

subsection \<open>Scan\<close>

text \<open>
  The \<open>switch\<close> is an \<open>if\<close> chain in the order of its cases; the \<open>fallthrough\<close> cases
  share the body of the case they fall into. Code points: \<open>#\<close> 35, \<open>[\<close> 91, \<open>]\<close> 93,
  \<open>,\<close> 44, \<open>.\<close> 46, \<open>:\<close> 58, \<open>;\<close> 59, \<open>/\<close> 47, \<open>*\<close> 42, \<open>(\<close> 40, \<open>)\<close> 41, \<open>~\<close> 126,
  the euro sign 8364 (U+20AC), \<open>$\<close> 36, the pound sign 163, the yen sign 165, the
  section sign 167, \<open>&\<close> 38, \<open>=\<close> 61, \<open>@\<close> 64, \<open>%\<close> 37, \<open>-\<close> 45, \<open>_\<close> 95.
\<close>

definition Scan :: "scanner \<Rightarrow> (Token \<times> rune list) \<times> scanner" where
  "Scan s =
     (case read s of
        (ch, s1) \<Rightarrow>
          if isWhitespace ch then scanWhitespace (UnreadRune s1)
          else if isLetter ch \<or> isDigit ch then scanIdent (UnreadRune s1)
          else if ch = 35 then ((HASHTAG, [35]), s1)
          else if ch = 91 then ((STATUS_OPEN, [91]), s1)
          else if ch = 93 then ((STATUS_CLOSE, [93]), s1)
          else if ch = 44 then ((COMMA, [44]), s1)
          else if ch = 46 then ((DOT, [46]), s1)
          else if ch = 58 then ((COLON, [58]), s1)
          else if ch = 59 then ((SEMICOLON, [59]), s1)
          else if ch = 47 then ((SLASH, [47]), s1)
          else if ch = 42 then ((ASTERISK, [42]), s1)
          else if ch = 40 \<or> ch = 41 then ((BRACKET, [ch]), s1)
          else if ch = 126 then ((TILDE, [126]), s1)
          else if ch = 8364 \<or> ch = 36 \<or> ch = 163 \<or> ch = 165 then ((CURRENCY_SIGN, [ch]), s1)
          else if ch = 167 then ((PARAGRAPH, [167]), s1)
          else if ch = 38 then ((AMPERSAND, [38]), s1)
          else if ch = 61 then ((EQUALS, [61]), s1)
          else if ch = 64 then ((AT, [64]), s1)
          else if ch = 37 then ((PERCENT, [37]), s1)
          else if ch = 45 then ((DASH, [45]), s1)
          else if ch = 95 then ((UNDERSCORE, [95]), s1)
          else if ch = eof then ((EOF, [ch]), s1)
          else ((ILLEGAL, [ch]), s1))"

subsection \<open>What one call of Scan does, by the runes still to be delivered\<close>

text \<open>
  Two notions used only to state the lemmas below: a rune that continues an identifier
  run, and the reader as a run loop leaves it, given the runes that follow the run. A
  loop that stops at a rune equal to \<open>eof\<close> has consumed that rune; at any other rune it
  has pushed it back.
\<close>

definition isIdentRune :: "rune \<Rightarrow> bool" where
  "isIdentRune ch = (isLetter ch \<or> isDigit ch)"

definition after_run :: "rune list \<Rightarrow> scanner" where
  "after_run rest =
     (case rest of
        [] \<Rightarrow> \<lparr>pending = [], lastRune = None\<rparr>
      | d # ds \<Rightarrow> if d = eof then \<lparr>pending = ds, lastRune = Some d\<rparr>
                 else \<lparr>pending = d # ds, lastRune = None\<rparr>)"

lemma isWhitespace_not_eof: "\<not> isWhitespace eof"
  by (simp add: isWhitespace_def eof_def)

lemma isIdentRune_not_eof: "\<not> isIdentRune eof"
  by (simp add: isIdentRune_def isLetter_def isDigit_def eof_def)

lemma isWhitespace_not_ident: "isWhitespace c \<Longrightarrow> \<not> isIdentRune c"
  by (auto simp: isWhitespace_def isIdentRune_def isLetter_def isDigit_def)

lemma scanWhitespace_loop_eq:
  "scanWhitespace_loop s buf =
     (buf @ takeWhile isWhitespace (pending s), after_run (dropWhile isWhitespace (pending s)))"
proof (induction "pending s" arbitrary: s buf)
  case Nil
  then show ?case
    by (subst scanWhitespace_loop.simps) (simp add: read_Nil [OF Nil [symmetric]] after_run_def)
next
  case (Cons c cs)
  have rd: "read s = (c, \<lparr>pending = cs, lastRune = Some c\<rparr>)"
    using Cons.hyps(2) by (simp add: read_Cons)
  show ?case
  proof (cases "isWhitespace c")
    case True
    then have "c \<noteq> eof" using isWhitespace_not_eof by auto
    with True rd Cons.hyps(1) [of "\<lparr>pending = cs, lastRune = Some c\<rparr>" "buf @ [c]"]
      Cons.hyps(2) [symmetric]
    show ?thesis
      by (subst scanWhitespace_loop.simps) simp
  next
    case False
    with rd Cons.hyps(2) [symmetric] show ?thesis
      by (subst scanWhitespace_loop.simps) (simp add: after_run_def UnreadRune_def)
  qed
qed

lemma scanIdent_loop_eq:
  "scanIdent_loop s buf =
     (buf @ takeWhile isIdentRune (pending s), after_run (dropWhile isIdentRune (pending s)))"
proof (induction "pending s" arbitrary: s buf)
  case Nil
  then show ?case
    by (subst scanIdent_loop.simps) (simp add: read_Nil [OF Nil [symmetric]] after_run_def)
next
  case (Cons c cs)
  have rd: "read s = (c, \<lparr>pending = cs, lastRune = Some c\<rparr>)"
    using Cons.hyps(2) by (simp add: read_Cons)
  show ?case
  proof (cases "isIdentRune c")
    case True
    then have "c \<noteq> eof" using isIdentRune_not_eof by auto
    moreover from True have "\<not> (\<not> isLetter c \<and> \<not> isDigit c)"
      by (simp add: isIdentRune_def)
    ultimately show ?thesis
      using True rd Cons.hyps(1) [of "\<lparr>pending = cs, lastRune = Some c\<rparr>" "buf @ [c]"]
        Cons.hyps(2) [symmetric]
      by (subst scanIdent_loop.simps) simp
  next
    case False
    then have "\<not> isLetter c \<and> \<not> isDigit c"
      by (simp add: isIdentRune_def)
    with False rd Cons.hyps(2) [symmetric] show ?thesis
      by (subst scanIdent_loop.simps) (simp add: after_run_def UnreadRune_def)
  qed
qed

lemma Scan_Nil:
  "pending s = [] \<Longrightarrow> Scan s = ((EOF, [eof]), \<lparr>pending = [], lastRune = None\<rparr>)"
  by (cases s) (simp add: Scan_def read_Nil isWhitespace_def isLetter_def isDigit_def eof_def)

lemma Scan_ws:
  "pending s = c # cs \<Longrightarrow> isWhitespace c \<Longrightarrow>
   Scan s = ((WS, c # takeWhile isWhitespace cs), after_run (dropWhile isWhitespace cs))"
  by (simp add: Scan_def read_Cons UnreadRune_def scanWhitespace_def scanWhitespace_loop_eq)

lemma Scan_ident:
  "pending s = c # cs \<Longrightarrow> isIdentRune c \<Longrightarrow>
   Scan s = ((IDENT, c # takeWhile isIdentRune cs), after_run (dropWhile isIdentRune cs))"
  using isWhitespace_not_ident [of c]
  by (auto simp: Scan_def read_Cons UnreadRune_def scanIdent_def scanIdent_loop_eq isIdentRune_def)

lemma Scan_single:
  assumes "pending s = c # cs" "\<not> isWhitespace c" "\<not> isIdentRune c"
  shows "snd (fst (Scan s)) = [c]"
    and "snd (Scan s) = \<lparr>pending = cs, lastRune = Some c\<rparr>"
    and "fst (fst (Scan s)) \<noteq> WS"
    and "fst (fst (Scan s)) \<noteq> IDENT"
    and "fst (fst (Scan s)) = EOF \<longleftrightarrow> c = eof"
  using assms by (simp_all add: Scan_def read_Cons isIdentRune_def eof_def)

lemma pending_after_run_le: "length (pending (after_run r)) \<le> length r"
  by (cases r) (simp_all add: after_run_def)

lemma set_pending_after_run: "set (pending (after_run r)) \<subseteq> set r"
  by (cases r) (auto simp: after_run_def)

lemma after_run_no_eof: "eof \<notin> set r \<Longrightarrow> after_run r = \<lparr>pending = r, lastRune = None\<rparr>"
  by (cases r) (auto simp: after_run_def)

lemma Scan_cases:
  obtains (exhausted) "pending s = []"
  | (ws) c cs where "pending s = c # cs" "isWhitespace c"
  | (ident) c cs where "pending s = c # cs" "isIdentRune c"
  | (single) c cs where "pending s = c # cs" "\<not> isWhitespace c" "\<not> isIdentRune c"
  by (cases "pending s") auto

lemma Scan_shorter:
  "fst (fst (Scan s)) \<noteq> EOF \<Longrightarrow> length (pending (snd (Scan s))) < length (pending s)"
proof (cases s rule: Scan_cases)
  case exhausted
  assume "fst (fst (Scan s)) \<noteq> EOF"
  with exhausted show ?thesis by (simp add: Scan_Nil)
next
  case (ws c cs)
  have "length (pending (after_run (dropWhile isWhitespace cs))) \<le> length cs"
    using pending_after_run_le length_dropWhile_le le_trans by blast
  with ws show ?thesis by (simp add: Scan_ws)
next
  case (ident c cs)
  have "length (pending (after_run (dropWhile isIdentRune cs))) \<le> length cs"
    using pending_after_run_le length_dropWhile_le le_trans by blast
  with ident show ?thesis by (simp add: Scan_ident)
next
  case (single c cs)
  then show ?thesis by (simp add: Scan_single(2))
qed

lemma set_pending_Scan: "set (pending (snd (Scan s))) \<subseteq> set (pending s)"
proof (cases s rule: Scan_cases)
  case exhausted
  then show ?thesis by (simp add: Scan_Nil)
next
  case (ws c cs)
  have "set (pending (after_run (dropWhile isWhitespace cs))) \<subseteq> set cs"
    using set_pending_after_run set_dropWhileD by fastforce
  with ws show ?thesis by (auto simp: Scan_ws)
next
  case (ident c cs)
  have "set (pending (after_run (dropWhile isIdentRune cs))) \<subseteq> set cs"
    using set_pending_after_run set_dropWhileD by fastforce
  with ident show ?thesis by (auto simp: Scan_ident)
next
  case (single c cs)
  then show ?thesis by (auto simp: Scan_single(2))
qed

lemma Scan_no_eof:
  assumes "eof \<notin> set (pending s)" "pending s \<noteq> []"
  shows "fst (fst (Scan s)) \<noteq> EOF"
    and "snd (fst (Scan s)) @ pending (snd (Scan s)) = pending s"
proof -
  have "fst (fst (Scan s)) \<noteq> EOF \<and> snd (fst (Scan s)) @ pending (snd (Scan s)) = pending s"
  proof (cases s rule: Scan_cases)
    case exhausted
    with assms show ?thesis by simp
  next
    case (ws c cs)
    with assms have "eof \<notin> set (dropWhile isWhitespace cs)"
      using set_dropWhileD by fastforce
    with ws show ?thesis by (simp add: Scan_ws after_run_no_eof)
  next
    case (ident c cs)
    with assms have "eof \<notin> set (dropWhile isIdentRune cs)"
      using set_dropWhileD by fastforce
    with ident show ?thesis by (simp add: Scan_ident after_run_no_eof)
  next
    case (single c cs)
    with assms have "c \<noteq> eof" by auto
    with single show ?thesis by (simp add: Scan_single)
  qed
  then show "fst (fst (Scan s)) \<noteq> EOF"
    and "snd (fst (Scan s)) @ pending (snd (Scan s)) = pending s" by simp_all
qed

subsection \<open>Scanning a whole input\<close>

text \<open>
  Modelled from the spec: the source has no caller of \<open>Scan\<close>; \<open>scanAll\<close> is the consumer
  of section 6, which calls \<open>Scan\<close> until it first observes an end-of-stream token, and
  collects the tokens in emission order, the end-of-stream token last. It terminates
  because every call that does not return \<open>EOF\<close> consumes at least one rune.
  \<open>ScanN n s\<close> is the scanner after \<open>n\<close> calls of \<open>Scan\<close>, whatever they returned.
\<close>

function scanAll :: "scanner \<Rightarrow> (Token \<times> rune list) list" where
  "scanAll s =
     (case Scan s of
        ((tok, lit), s') \<Rightarrow>
          if tok = EOF then [(tok, lit)] else (tok, lit) # scanAll s')"
  by pat_completeness auto
termination
  by (relation "measure (\<lambda>s. length (pending s))") (auto, metis Scan_shorter fst_conv snd_conv)

declare scanAll.simps [simp del]

primrec ScanN :: "nat \<Rightarrow> scanner \<Rightarrow> scanner" where
  "ScanN 0 s = s"
| "ScanN (Suc n) s = ScanN n (snd (Scan s))"

text \<open>
  The text that a token sequence carries: its lexemes, in order, without the lexemes of
  end-of-stream tokens.
\<close>

definition lexemes :: "(Token \<times> rune list) list \<Rightarrow> rune list" where
  "lexemes ts = concat (map snd (filter (\<lambda>t. fst t \<noteq> EOF) ts))"

text \<open>
  \<open>adjacentKinds k ts\<close>: two neighbours in \<open>ts\<close> are both of kind \<open>k\<close>.
\<close>

fun adjacentKinds :: "Token \<Rightarrow> (Token \<times> rune list) list \<Rightarrow> bool" where
  "adjacentKinds k (a # b # ts) = ((fst a = k \<and> fst b = k) \<or> adjacentKinds k (b # ts))"
| "adjacentKinds k ts = False"

text \<open>
  \<open>ident_ends_at l c post s\<close>: the call of \<open>Scan\<close> on \<open>s\<close> returns an identifier-run token
  whose lexeme ends with \<open>l\<close>, the lexeme is exactly the text from where the call started up
  to the character \<open>c\<close>, and the call leaves \<open>c\<close> and what follows it to be delivered.
\<close>

definition ident_ends_at :: "rune \<Rightarrow> rune \<Rightarrow> rune list \<Rightarrow> scanner \<Rightarrow> bool" where
  "ident_ends_at l c post s =
     (fst (fst (Scan s)) = IDENT \<and>
      pending s = snd (fst (Scan s)) @ c # post \<and>
      last (snd (fst (Scan s))) = l \<and>
      pending (snd (Scan s)) = c # post)"

text \<open>
  \<open>starts_token pre\<close>: a character that stands right after the text \<open>pre\<close> is not inside
  or right behind a run, because \<open>pre\<close> is empty or ends with a character that is neither
  whitespace nor an identifier character.
\<close>

definition starts_token :: "rune list \<Rightarrow> bool" where
  "starts_token pre = (pre = [] \<or> (\<not> isWhitespace (last pre) \<and> \<not> isIdentRune (last pre)))"

text \<open>
  The identifier characters in the words of the specification, to be compared with the
  test \<open>isLetter(ch) || isDigit(ch)\<close> of the source: an ASCII letter \<open>a\<close> to \<open>z\<close> or \<open>A\<close> to
  \<open>Z\<close>, an ASCII digit \<open>0\<close> to \<open>9\<close>, or one of the seven diacritics.
\<close>

definition spec_identifier_character :: "rune \<Rightarrow> bool" where
  "spec_identifier_character c =
     ((97 \<le> c \<and> c \<le> 122) \<or> (65 \<le> c \<and> c \<le> 90) \<or> (48 \<le> c \<and> c \<le> 57) \<or>
      c \<in> {228, 214, 246, 196, 252, 220, 223})"

text \<open>
  The fixed single-character symbol table: the case labels of the \<open>switch\<close> in \<open>Scan\<close> that
  are punctuation or symbols (all its labels but \<open>eof\<close>), which are the characters of the
  single-character classes listed in section 3 of the specification.
\<close>

definition symbolTable :: "rune list" where
  "symbolTable =
     [35, 91, 93, 44, 46, 58, 59, 47, 42, 40, 41, 126, 8364, 36, 163, 165, 167, 38, 61, 64,
      37, 45, 95]"

section \<open>Properties\<close>

subsection \<open>Losslessness and termination of the token stream\<close>

lemma scanAll_Nil: "pending s = [] \<Longrightarrow> scanAll s = [(EOF, [eof])]"
  by (subst scanAll.simps) (simp add: Scan_Nil)

lemma scanAll_step:
  "fst (fst (Scan s)) \<noteq> EOF \<Longrightarrow> scanAll s = fst (Scan s) # scanAll (snd (Scan s))"
  by (subst scanAll.simps) (auto split: prod.splits)

lemma scanAll_lossless:
  "eof \<notin> set (pending s) \<Longrightarrow>
   lexemes (scanAll s) = pending s"
proof (induction "length (pending s)" arbitrary: s rule: less_induct)
  case less
  show ?case
  proof (cases "pending s = []")
    case True
    then show ?thesis by (simp add: scanAll_Nil lexemes_def)
  next
    case False
    note step = Scan_no_eof [OF less.prems False]
    have "eof \<notin> set (pending (snd (Scan s)))"
      using less.prems set_pending_Scan by blast
    then have "lexemes (scanAll (snd (Scan s))) = pending (snd (Scan s))"
      using less.hyps Scan_shorter [OF step(1)] by blast
    with step show ?thesis by (simp add: scanAll_step lexemes_def)
  qed
qed

lemma read_pending_only: "pending s = pending t \<Longrightarrow> read s = read t"
  by (cases s, cases t, cases "pending s") (simp_all add: read_def ReadRune_def)

lemma Scan_pending_only:
  assumes "pending s = pending t"
  shows "Scan s = Scan t"
  unfolding Scan_def read_pending_only [OF assms] by (rule refl)

lemma ScanN_pending_only: "pending s = pending t \<Longrightarrow> Scan (ScanN n s) = Scan (ScanN n t)"
proof (induction n arbitrary: s t)
  case 0
  then have "Scan s = Scan t" by (rule Scan_pending_only)
  then show ?case by (simp only: ScanN.simps)
next
  case (Suc n)
  have "pending (snd (Scan s)) = pending (snd (Scan t))"
    by (simp only: Scan_pending_only [OF Suc.prems])
  then have "Scan (ScanN n (snd (Scan s))) = Scan (ScanN n (snd (Scan t)))"
    by (rule Suc.IH)
  then show ?case by (simp only: ScanN.simps)
qed

lemma scanAll_pending_only: "pending s = pending t \<Longrightarrow> scanAll s = scanAll t"
  by (subst scanAll.simps [of s], subst scanAll.simps [of t])
    (simp only: Scan_pending_only [of s t])

lemma ScanN_exhausted: "pending s = [] \<Longrightarrow> pending (ScanN n s) = []"
  by (induction n arbitrary: s) (simp_all add: Scan_Nil)

lemma set_pending_ScanN: "set (pending (ScanN n s)) \<subseteq> set (pending s)"
proof (induction n arbitrary: s)
  case 0
  show ?case by simp
next
  case (Suc n)
  have "set (pending (ScanN n (snd (Scan s)))) \<subseteq> set (pending (snd (Scan s)))"
    by (rule Suc.IH)
  with set_pending_Scan [of s] show ?case by auto
qed

lemma ScanN_add: "ScanN (n + k) s = ScanN k (ScanN n s)"
  by (induction n arbitrary: s) simp_all

lemma ScanN_Suc_last: "ScanN (Suc n) s = snd (Scan (ScanN n s))"
  using ScanN_add [of n 1 s] by simp

lemma Scan_EOF_exhausted:
  "eof \<notin> set (pending s) \<Longrightarrow> fst (fst (Scan s)) = EOF \<Longrightarrow> pending s = []"
  using Scan_no_eof(1) by blast

text \<open>
  Claim C1, amended. For every input that contains no character U+0000, concatenating the
  lexemes of all tokens that scanning emits, in emission order and without the
  end-of-stream token, gives back the input. (The input is the sequence of characters
  the reader decodes.)
\<close>

theorem C1_lossless_without_nul:
  "eof \<notin> set input \<Longrightarrow> lexemes (scanAll (NewScanner input)) = input"
  using scanAll_lossless [of "NewScanner input"] by (simp add: NewScanner_def)

theorem C1_lossless_without_nul_witness:
  "eof \<notin> set [97, 32, 35] \<and> lexemes (scanAll (NewScanner [97, 32, 35])) = [97, 32, 35]"
  using C1_lossless_without_nul [of "[97, 32, 35]"] by (simp add: eof_def)

text \<open>
  Claim C1 as stated fails on the input \<open>a\<close>, U+0000, \<open>b\<close>: the identifier loop reads the
  U+0000, takes it for \<open>eof\<close> and leaves the loop without pushing it back, so the
  character is in no lexeme.
\<close>

theorem C1_lossless_counterexample:
  "scanAll (NewScanner [97, 0, 98]) = [(IDENT, [97]), (IDENT, [98]), (EOF, [0])] \<and>
   lexemes (scanAll (NewScanner [97, 0, 98])) \<noteq> [97, 0, 98]"
  by code_simp

text \<open>
  Claim C2, amended. For every input that contains no character U+0000 and every scanner
  over it: once a call of \<open>Scan\<close> (the call number \<open>n\<close>, counted from 0) has returned an
  end-of-stream token, every later call (number \<open>m \<ge> n\<close>) returns an end-of-stream token
  whose lexeme is the one character of value zero.
\<close>

theorem C2_eof_repeats_without_nul:
  assumes "eof \<notin> set input"
    and "fst (fst (Scan (ScanN n (NewScanner input)))) = EOF"
    and "n \<le> m"
  shows "fst (Scan (ScanN m (NewScanner input))) = (EOF, [eof])"
proof -
  have "eof \<notin> set (pending (ScanN n (NewScanner input)))"
    using assms(1) set_pending_ScanN [of n "NewScanner input"] by (auto simp: NewScanner_def)
  then have "pending (ScanN n (NewScanner input)) = []"
    using assms(2) by (rule Scan_EOF_exhausted)
  then have "pending (ScanN (m - n) (ScanN n (NewScanner input))) = []"
    by (rule ScanN_exhausted)
  moreover have "ScanN m (NewScanner input) = ScanN (m - n) (ScanN n (NewScanner input))"
    using assms(3) ScanN_add [of n "m - n" "NewScanner input"] by simp
  ultimately show ?thesis by (simp add: Scan_Nil)
qed

theorem C2_eof_repeats_without_nul_witness:
  "eof \<notin> set [97] \<and> fst (fst (Scan (ScanN 1 (NewScanner [97])))) = EOF \<and> (1::nat) \<le> 3 \<and>
   fst (Scan (ScanN 3 (NewScanner [97]))) = (EOF, [eof])"
proof -
  have h1: "eof \<notin> set [97]" by (simp add: eof_def)
  have h2: "fst (fst (Scan (ScanN 1 (NewScanner [97])))) = EOF" by code_simp
  have h3: "(1::nat) \<le> 3" by simp
  show ?thesis using h1 h2 h3 C2_eof_repeats_without_nul [OF h1 h2 h3] by simp
qed

text \<open>
  Claim C2 as stated fails on the input U+0000, \<open>a\<close>: the first call returns an
  end-of-stream token for the U+0000, the second call returns the identifier \<open>a\<close>.
\<close>

theorem C2_eof_repeats_counterexample:
  "fst (Scan (ScanN 0 (NewScanner [0, 97]))) = (EOF, [0]) \<and>
   fst (Scan (ScanN 1 (NewScanner [0, 97]))) = (IDENT, [97])"
  by code_simp

subsection \<open>A character U+0000 inside the input\<close>

lemma last_dropWhile: "dropWhile P xs \<noteq> [] \<Longrightarrow> last (dropWhile P xs) = last xs"
  by (metis last_appendR takeWhile_dropWhile_id)

lemma after_run_nul_keep:
  assumes "ps \<noteq> []" "starts_token ps"
  shows "\<exists>q. length q \<le> length ps \<and> starts_token q \<and>
    pending (after_run (ps @ eof # r)) = q @ eof # r"
proof -
  from assms(1) obtain d ds where ps: "ps = d # ds" by (cases ps) auto
  show ?thesis
  proof (cases "d = eof")
    case True
    from assms ps have "starts_token ds"
      by (auto simp: starts_token_def)
    with True ps have "length ds \<le> length ps \<and> starts_token ds \<and>
        pending (after_run (ps @ eof # r)) = ds @ eof # r"
      by (simp add: after_run_def)
    then show ?thesis by blast
  next
    case False
    with ps assms(2) have "length ps \<le> length ps \<and> starts_token ps \<and>
        pending (after_run (ps @ eof # r)) = ps @ eof # r"
      by (simp add: after_run_def)
    then show ?thesis by blast
  qed
qed

lemma run_before_nul:
  assumes p: "P p" and st: "starts_token (p # ps)"
    and cls: "\<And>x. P x \<Longrightarrow> isWhitespace x \<or> isIdentRune x"
  shows "\<exists>q. length q \<le> length ps \<and> starts_token q \<and>
    pending (after_run (dropWhile P (ps @ eof # r))) = q @ eof # r"
proof -
  from st have "\<not> isWhitespace (last (p # ps)) \<and> \<not> isIdentRune (last (p # ps))"
    by (simp add: starts_token_def)
  then have nl: "\<not> P (last (p # ps))"
    using cls by blast
  with p have ne: "ps \<noteq> []" by auto
  with nl have "\<not> P (last ps)" by simp
  with ne have ex: "\<exists>x\<in>set ps. \<not> P x" using last_in_set by blast
  then have dw: "dropWhile P (ps @ eof # r) = dropWhile P ps @ eof # r"
    by (auto simp: dropWhile_append1)
  from ex have dne: "dropWhile P ps \<noteq> []" by (simp add: dropWhile_eq_Nil_conv)
  then have "last (dropWhile P ps) = last ps" by (rule last_dropWhile)
  with st ne dne have "starts_token (dropWhile P ps)"
    by (simp add: starts_token_def)
  from after_run_nul_keep [OF dne this, of r] obtain q where
    "length q \<le> length (dropWhile P ps)" "starts_token q"
    "pending (after_run (dropWhile P ps @ eof # r)) = q @ eof # r" by blast
  moreover have "length (dropWhile P ps) \<le> length ps" by (rule length_dropWhile_le)
  ultimately have "length q \<le> length ps \<and> starts_token q \<and>
      pending (after_run (dropWhile P (ps @ eof # r))) = q @ eof # r"
    using dw by simp
  then show ?thesis by blast
qed

lemma Scan_towards_nul:
  assumes "pending s = pre @ eof # post" "pre \<noteq> []" "starts_token pre"
  shows "\<exists>q. length q < length pre \<and> starts_token q \<and>
    pending (snd (Scan s)) = q @ eof # post"
proof -
  from assms(2) obtain p ps where pre: "pre = p # ps" by (cases pre) auto
  with assms(1) have ps: "pending s = p # (ps @ eof # post)" by simp
  consider (ws) "isWhitespace p" | (ident) "isIdentRune p"
    | (single) "\<not> isWhitespace p" "\<not> isIdentRune p" by blast
  then show ?thesis
  proof cases
    case ws
    from run_before_nul [of isWhitespace p ps post] ws assms(3) pre
    obtain q where "length q \<le> length ps" "starts_token q"
      "pending (after_run (dropWhile isWhitespace (ps @ eof # post))) = q @ eof # post"
      by blast
    with ps ws pre have "length q < length pre \<and> starts_token q \<and>
        pending (snd (Scan s)) = q @ eof # post"
      by (simp add: Scan_ws)
    then show ?thesis by blast
  next
    case ident
    from run_before_nul [of isIdentRune p ps post] ident assms(3) pre
    obtain q where "length q \<le> length ps" "starts_token q"
      "pending (after_run (dropWhile isIdentRune (ps @ eof # post))) = q @ eof # post"
      by blast
    with ps ident pre have "length q < length pre \<and> starts_token q \<and>
        pending (snd (Scan s)) = q @ eof # post"
      by (simp add: Scan_ident)
    then show ?thesis by blast
  next
    case single
    from assms(3) pre have "starts_token ps"
      by (auto simp: starts_token_def)
    with single ps pre have "length ps < length pre \<and> starts_token ps \<and>
        pending (snd (Scan s)) = ps @ eof # post"
      by (simp add: Scan_single(2))
    then show ?thesis by blast
  qed
qed

lemma nul_reached:
  "pending s = pre @ eof # post \<Longrightarrow> starts_token pre \<Longrightarrow>
   \<exists>n. pending (ScanN n s) = eof # post"
proof (induction "length pre" arbitrary: s pre rule: less_induct)
  case less
  show ?case
  proof (cases "pre = []")
    case True
    with less.prems(1) have "pending (ScanN 0 s) = eof # post" by simp
    then show ?thesis ..
  next
    case False
    from Scan_towards_nul [OF less.prems(1) False less.prems(2)]
    obtain q where "length q < length pre" "starts_token q"
      "pending (snd (Scan s)) = q @ eof # post" by blast
    then obtain n where "pending (ScanN n (snd (Scan s))) = eof # post"
      using less.hyps by blast
    then have "pending (ScanN (Suc n) s) = eof # post" by simp
    then show ?thesis ..
  qed
qed

lemma Scan_at_nul:
  assumes "pending s = eof # rest"
  shows "Scan s = ((EOF, [eof]), \<lparr>pending = rest, lastRune = Some eof\<rparr>)"
  using assms by (simp add: Scan_def read_Cons isWhitespace_def isLetter_def isDigit_def eof_def)

text \<open>
  Claim C3, amended. For every input that contains the character U+0000 at a position
  that is not immediately preceded by a whitespace character, a letter or a digit, some
  call of \<open>Scan\<close> (number \<open>n\<close>) starts at that position; it returns the token \<open>EOF\<close> with the
  one-character lexeme U+0000 although the stream is not exhausted, and consumes exactly
  that character. The calls after it tokenize the input that follows the U+0000 as a new
  scanner over that input would: the token is not a terminal state.
\<close>

theorem C3_nul_at_start_of_token:
  assumes "pre = [] \<or>
    (\<not> isWhitespace (last pre) \<and> \<not> isLetter (last pre) \<and> \<not> isDigit (last pre))"
  shows "\<exists>n. pending (ScanN n (NewScanner (pre @ eof # post))) = eof # post \<and>
    Scan (ScanN n (NewScanner (pre @ eof # post))) =
      ((EOF, [eof]), \<lparr>pending = post, lastRune = Some eof\<rparr>) \<and>
    scanAll (ScanN (Suc n) (NewScanner (pre @ eof # post))) = scanAll (NewScanner post) \<and>
    (\<forall>k. Scan (ScanN k (ScanN (Suc n) (NewScanner (pre @ eof # post)))) =
         Scan (ScanN k (NewScanner post)))"
proof -
  let ?s = "NewScanner (pre @ eof # post)"
  from assms have "starts_token pre"
    by (simp add: starts_token_def isIdentRune_def)
  moreover have "pending ?s = pre @ eof # post" by (simp add: NewScanner_def)
  ultimately obtain n where n: "pending (ScanN n ?s) = eof # post"
    using nul_reached by blast
  note sc = Scan_at_nul [OF n]
  have "pending (ScanN (Suc n) ?s) = pending (NewScanner post)"
    by (simp only: ScanN_Suc_last sc) (simp add: NewScanner_def)
  from scanAll_pending_only [OF this] ScanN_pending_only [OF this] n sc
  show ?thesis by blast
qed

theorem C3_nul_at_start_of_token_witness:
  "([35] = [] \<or> \<not> isWhitespace (last [35]) \<and> \<not> isLetter (last [35]) \<and> \<not> isDigit (last [35])) \<and>
   (\<exists>n. pending (ScanN n (NewScanner ([35] @ eof # [97]))) = eof # [97] \<and>
    Scan (ScanN n (NewScanner ([35] @ eof # [97]))) =
      ((EOF, [eof]), \<lparr>pending = [97], lastRune = Some eof\<rparr>) \<and>
    scanAll (ScanN (Suc n) (NewScanner ([35] @ eof # [97]))) = scanAll (NewScanner [97]) \<and>
    (\<forall>k. Scan (ScanN k (ScanN (Suc n) (NewScanner ([35] @ eof # [97])))) =
         Scan (ScanN k (NewScanner [97]))))"
proof -
  have h: "[35] = [] \<or>
      (\<not> isWhitespace (last [35]) \<and> \<not> isLetter (last [35]) \<and> \<not> isDigit (last [35]))"
    by (simp add: isWhitespace_def isLetter_def isDigit_def)
  show ?thesis
    by (rule conjI [OF h C3_nul_at_start_of_token [OF h]])
qed

text \<open>
  Claim C3 as stated fails on the input \<open>a\<close>, U+0000, \<open>b\<close>: the call that reaches the
  U+0000 is the one inside the identifier loop; it returns the identifier \<open>a\<close>, not an
  end-of-stream token, and has consumed the U+0000. The only end-of-stream token of this
  input comes third, from the exhausted stream.
\<close>

theorem C3_nul_after_run_counterexample:
  "Scan (NewScanner [97, 0, 98]) = ((IDENT, [97]), \<lparr>pending = [98], lastRune = Some 0\<rparr>) \<and>
   scanAll (NewScanner [97, 0, 98]) = [(IDENT, [97]), (IDENT, [98]), (EOF, [0])] \<and>
   pending (ScanN 2 (NewScanner [97, 0, 98])) = []"
  by code_simp

subsection \<open>Maximal runs\<close>

lemma Scan_kind_WS:
  "fst (fst (Scan s)) = WS \<longleftrightarrow> (\<exists>c cs. pending s = c # cs \<and> isWhitespace c)"
proof (cases s rule: Scan_cases)
  case exhausted
  then show ?thesis by (simp add: Scan_Nil)
next
  case (ws c cs)
  then show ?thesis by (simp add: Scan_ws)
next
  case (ident c cs)
  then show ?thesis using isWhitespace_not_ident [of c] by (auto simp: Scan_ident)
next
  case (single c cs)
  then show ?thesis by (simp add: Scan_single(3))
qed

lemma Scan_kind_IDENT:
  "fst (fst (Scan s)) = IDENT \<longleftrightarrow> (\<exists>c cs. pending s = c # cs \<and> isIdentRune c)"
proof (cases s rule: Scan_cases)
  case exhausted
  then show ?thesis by (simp add: Scan_Nil)
next
  case (ws c cs)
  then show ?thesis using isWhitespace_not_ident [of c] by (auto simp: Scan_ws)
next
  case (ident c cs)
  then show ?thesis by (simp add: Scan_ident)
next
  case (single c cs)
  then show ?thesis by (simp add: Scan_single(4))
qed

lemma Scan_after_WS:
  assumes "eof \<notin> set (pending s)" "fst (fst (Scan s)) = WS"
  shows "fst (fst (Scan (snd (Scan s)))) \<noteq> WS"
proof
  assume again: "fst (fst (Scan (snd (Scan s)))) = WS"
  from assms(2) obtain c cs where s: "pending s = c # cs" "isWhitespace c"
    using Scan_kind_WS by blast
  with assms(1) have "eof \<notin> set (dropWhile isWhitespace cs)"
    using set_dropWhileD by fastforce
  with s have p: "pending (snd (Scan s)) = dropWhile isWhitespace cs"
    by (simp add: Scan_ws after_run_no_eof)
  from again obtain d ds where "pending (snd (Scan s)) = d # ds" "isWhitespace d"
    using Scan_kind_WS by blast
  with p have "dropWhile isWhitespace cs = d # ds" "isWhitespace d" by simp_all
  then show False by (simp add: dropWhile_eq_Cons_conv)
qed

lemma Scan_after_IDENT:
  assumes "eof \<notin> set (pending s)" "fst (fst (Scan s)) = IDENT"
  shows "fst (fst (Scan (snd (Scan s)))) \<noteq> IDENT"
proof
  assume again: "fst (fst (Scan (snd (Scan s)))) = IDENT"
  from assms(2) obtain c cs where s: "pending s = c # cs" "isIdentRune c"
    using Scan_kind_IDENT by blast
  with assms(1) have "eof \<notin> set (dropWhile isIdentRune cs)"
    using set_dropWhileD by fastforce
  with s have p: "pending (snd (Scan s)) = dropWhile isIdentRune cs"
    by (simp add: Scan_ident after_run_no_eof)
  from again obtain d ds where "pending (snd (Scan s)) = d # ds" "isIdentRune d"
    using Scan_kind_IDENT by blast
  with p have "dropWhile isIdentRune cs = d # ds" "isIdentRune d" by simp_all
  then show False by (simp add: dropWhile_eq_Cons_conv)
qed

lemma adjacentKinds_Cons:
  "adjacentKinds k (a # ts) = ((ts \<noteq> [] \<and> fst a = k \<and> fst (hd ts) = k) \<or> adjacentKinds k ts)"
  by (cases ts) auto

lemma scanAll_hd: "scanAll s \<noteq> [] \<and> fst (hd (scanAll s)) = fst (fst (Scan s))"
  by (subst scanAll.simps, subst scanAll.simps) (auto split: prod.splits)

lemma scanAll_no_adjacent:
  assumes step: "\<And>s. eof \<notin> set (pending s) \<Longrightarrow> fst (fst (Scan s)) = k \<Longrightarrow>
      fst (fst (Scan (snd (Scan s)))) \<noteq> k"
  shows "eof \<notin> set (pending s) \<Longrightarrow> \<not> adjacentKinds k (scanAll s)"
proof (induction "length (pending s)" arbitrary: s rule: less_induct)
  case less
  show ?case
  proof (cases "pending s = []")
    case True
    then show ?thesis by (simp add: scanAll_Nil)
  next
    case False
    note st = Scan_no_eof [OF less.prems False]
    have nf: "eof \<notin> set (pending (snd (Scan s)))"
      using less.prems set_pending_Scan by blast
    then have "\<not> adjacentKinds k (scanAll (snd (Scan s)))"
      using less.hyps Scan_shorter [OF st(1)] by blast
    moreover have "\<not> (fst (fst (Scan s)) = k \<and> fst (hd (scanAll (snd (Scan s)))) = k)"
      using step [OF less.prems] scanAll_hd [of "snd (Scan s)"] by auto
    ultimately show ?thesis
      by (simp add: scanAll_step [OF st(1)] adjacentKinds_Cons)
  qed
qed

text \<open>
  Claim C4, amended. In the token sequence produced by scanning any input that contains
  no character U+0000, no two adjacent tokens are both whitespace-run tokens and no two
  adjacent tokens are both identifier-run tokens.
\<close>

theorem C4_runs_maximal_without_nul:
  "eof \<notin> set input \<Longrightarrow>
   \<not> adjacentKinds WS (scanAll (NewScanner input)) \<and>
   \<not> adjacentKinds IDENT (scanAll (NewScanner input))"
  using scanAll_no_adjacent [of WS "NewScanner input", OF Scan_after_WS]
    scanAll_no_adjacent [of IDENT "NewScanner input", OF Scan_after_IDENT]
  by (simp add: NewScanner_def)

theorem C4_runs_maximal_without_nul_witness:
  "eof \<notin> set [97, 49, 32, 9, 98] \<and>
   \<not> adjacentKinds WS (scanAll (NewScanner [97, 49, 32, 9, 98])) \<and>
   \<not> adjacentKinds IDENT (scanAll (NewScanner [97, 49, 32, 9, 98]))"
  using C4_runs_maximal_without_nul [of "[97, 49, 32, 9, 98]"] by (simp add: eof_def)

text \<open>
  Claim C4 as stated fails where a U+0000 stands inside a run: it ends the run loop and
  is consumed, and the next call starts a second run of the same kind.
\<close>

theorem C4_runs_split_at_nul_counterexample:
  "scanAll (NewScanner [97, 0, 98]) = [(IDENT, [97]), (IDENT, [98]), (EOF, [0])] \<and>
   adjacentKinds IDENT (scanAll (NewScanner [97, 0, 98])) \<and>
   scanAll (NewScanner [32, 0, 9]) = [(WS, [32]), (WS, [9]), (EOF, [0])] \<and>
   adjacentKinds WS (scanAll (NewScanner [32, 0, 9]))"
  by code_simp

subsection \<open>The boundary behind an identifier\<close>

lemma after_run_keep:
  assumes "x \<noteq> eof"
  shows "\<exists>q. length q \<le> length ps \<and> pending (after_run (ps @ x # r)) = q @ x # r"
proof (cases ps)
  case Nil
  with assms show ?thesis by (simp add: after_run_def)
next
  case (Cons d ds)
  show ?thesis
  proof (cases "d = eof")
    case True
    with Cons have "length ds \<le> length ps \<and> pending (after_run (ps @ x # r)) = ds @ x # r"
      by (simp add: after_run_def)
    then show ?thesis by blast
  next
    case False
    with Cons have "length ps \<le> length ps \<and> pending (after_run (ps @ x # r)) = ps @ x # r"
      by (simp add: after_run_def)
    then show ?thesis by blast
  qed
qed

lemma Scan_towards_boundary:
  assumes l: "isLetter l" and c: "\<not> isIdentRune c" "c \<noteq> eof"
    and s: "pending s = pre @ l # c # post"
  shows "ident_ends_at l c post s \<or>
    (\<exists>pre'. length pre' < length pre \<and> pending (snd (Scan s)) = pre' @ l # c # post)"
proof -
  from l have il: "isIdentRune l" by (simp add: isIdentRune_def)
  then have l0: "l \<noteq> eof" using isIdentRune_not_eof by auto
  from il have nws: "\<not> isWhitespace l" using isWhitespace_not_ident by auto
  from c have run: "takeWhile isIdentRune (l # c # post) = [l]"
    "dropWhile isIdentRune (l # c # post) = c # post"
    using il by simp_all
  from c have ar: "after_run (c # post) = \<lparr>pending = c # post, lastRune = None\<rparr>"
    by (simp add: after_run_def)
  show ?thesis
  proof (cases pre)
    case Nil
    with s il run ar have "ident_ends_at l c post s"
      by (simp add: ident_ends_at_def Scan_ident)
    then show ?thesis ..
  next
    case (Cons p ps)
    with s have ps: "pending s = p # (ps @ l # c # post)" by simp
    consider (ws) "isWhitespace p" | (ident) "isIdentRune p"
      | (single) "\<not> isWhitespace p" "\<not> isIdentRune p" by blast
    then show ?thesis
    proof cases
      case ws
      have "dropWhile isWhitespace (ps @ l # c # post) = dropWhile isWhitespace ps @ l # c # post"
        using nws by (simp add: dropWhile_append3)
      then have "pending (snd (Scan s)) =
          pending (after_run (dropWhile isWhitespace ps @ l # c # post))"
        using ps ws by (simp add: Scan_ws)
      moreover obtain q where "length q \<le> length (dropWhile isWhitespace ps)"
        "pending (after_run (dropWhile isWhitespace ps @ l # c # post)) = q @ l # c # post"
        using after_run_keep [OF l0] by blast
      moreover have "length (dropWhile isWhitespace ps) \<le> length ps"
        by (rule length_dropWhile_le)
      ultimately have "length q < length pre \<and> pending (snd (Scan s)) = q @ l # c # post"
        using Cons by simp
      then show ?thesis by blast
    next
      case ident
      show ?thesis
      proof (cases "\<forall>x\<in>set ps. isIdentRune x")
        case True
        then have "takeWhile isIdentRune (ps @ l # c # post) = ps @ [l]"
          "dropWhile isIdentRune (ps @ l # c # post) = c # post"
          using run by (simp_all add: takeWhile_append2 dropWhile_append2)
        with ps ident ar have "ident_ends_at l c post s"
          by (simp add: ident_ends_at_def Scan_ident)
        then show ?thesis ..
      next
        case False
        then have "dropWhile isIdentRune (ps @ l # c # post)
            = dropWhile isIdentRune ps @ l # c # post"
          by (auto simp: dropWhile_append1)
        then have "pending (snd (Scan s)) =
            pending (after_run (dropWhile isIdentRune ps @ l # c # post))"
          using ps ident by (simp add: Scan_ident)
        moreover obtain q where "length q \<le> length (dropWhile isIdentRune ps)"
          "pending (after_run (dropWhile isIdentRune ps @ l # c # post)) = q @ l # c # post"
          using after_run_keep [OF l0] by blast
        moreover have "length (dropWhile isIdentRune ps) \<le> length ps"
          by (rule length_dropWhile_le)
        ultimately have "length q < length pre \<and> pending (snd (Scan s)) = q @ l # c # post"
          using Cons by simp
        then show ?thesis by blast
      qed
    next
      case single
      with ps have "pending (snd (Scan s)) = ps @ l # c # post"
        by (simp add: Scan_single(2))
      with Cons have "length ps < length pre \<and> pending (snd (Scan s)) = ps @ l # c # post"
        by simp
      then show ?thesis by blast
    qed
  qed
qed

lemma ident_boundary_reached:
  assumes l: "isLetter l" and c: "\<not> isIdentRune c" "c \<noteq> eof"
  shows "pending s = pre @ l # c # post \<Longrightarrow> \<exists>n. ident_ends_at l c post (ScanN n s)"
proof (induction "length pre" arbitrary: s pre rule: less_induct)
  case less
  from Scan_towards_boundary [OF l c less.prems]
  show ?case
  proof
    assume "ident_ends_at l c post s"
    then have "ident_ends_at l c post (ScanN 0 s)" by simp
    then show ?thesis ..
  next
    assume "\<exists>pre'. length pre' < length pre \<and> pending (snd (Scan s)) = pre' @ l # c # post"
    then obtain pre' where "length pre' < length pre"
      "pending (snd (Scan s)) = pre' @ l # c # post" by blast
    then obtain n where "ident_ends_at l c post (ScanN n (snd (Scan s)))"
      using less.hyps by blast
    then have "ident_ends_at l c post (ScanN (Suc n) s)" by simp
    then show ?thesis ..
  qed
qed

text \<open>
  Claim C5, amended. For every input in which a letter \<open>l\<close> is immediately followed by a
  character \<open>c\<close> that is neither a letter nor a digit and is not U+0000, some call of
  \<open>Scan\<close> (number \<open>n\<close>) returns an identifier-run token that ends exactly before \<open>c\<close>: its
  lexeme ends with \<open>l\<close> and is the text between the start of that call and \<open>c\<close>. The next
  call starts at \<open>c\<close> and returns a token that begins with it: the one-character token
  \<open>c\<close> when \<open>c\<close> is not whitespace, and the whitespace run that starts at \<open>c\<close> when it is.
\<close>

theorem C5_identifier_boundary:
  assumes "isLetter l" and "\<not> isLetter c" and "\<not> isDigit c" and "c \<noteq> eof"
  shows "\<exists>n. fst (fst (Scan (ScanN n (NewScanner (pre @ l # c # post))))) = IDENT \<and>
    pending (ScanN n (NewScanner (pre @ l # c # post))) =
      snd (fst (Scan (ScanN n (NewScanner (pre @ l # c # post))))) @ c # post \<and>
    last (snd (fst (Scan (ScanN n (NewScanner (pre @ l # c # post)))))) = l \<and>
    pending (ScanN (Suc n) (NewScanner (pre @ l # c # post))) = c # post \<and>
    snd (fst (Scan (ScanN (Suc n) (NewScanner (pre @ l # c # post))))) =
      (if isWhitespace c then c # takeWhile isWhitespace post else [c])"
proof -
  let ?s = "NewScanner (pre @ l # c # post)"
  from assms have c: "\<not> isIdentRune c" by (simp add: isIdentRune_def)
  have "pending ?s = pre @ l # c # post" by (simp add: NewScanner_def)
  then obtain n where n: "ident_ends_at l c post (ScanN n ?s)"
    using ident_boundary_reached [OF assms(1) c assms(4)] by blast
  then have p: "pending (ScanN (Suc n) ?s) = c # post"
    by (simp only: ScanN_Suc_last ident_ends_at_def)
  have "snd (fst (Scan (ScanN (Suc n) ?s))) =
      (if isWhitespace c then c # takeWhile isWhitespace post else [c])"
  proof (cases "isWhitespace c")
    case True
    with p show ?thesis by (simp only: Scan_ws [OF p True]) simp
  next
    case False
    with p c show ?thesis by (simp only: Scan_single(1) [OF p False c]) simp
  qed
  with n p show ?thesis unfolding ident_ends_at_def by blast
qed

theorem C5_identifier_boundary_witness:
  "isLetter 98 \<and> \<not> isLetter 44 \<and> \<not> isDigit 44 \<and> 44 \<noteq> eof \<and>
   (\<exists>n. fst (fst (Scan (ScanN n (NewScanner ([35, 97] @ 98 # 44 # [32]))))) = IDENT \<and>
    pending (ScanN n (NewScanner ([35, 97] @ 98 # 44 # [32]))) =
      snd (fst (Scan (ScanN n (NewScanner ([35, 97] @ 98 # 44 # [32]))))) @ 44 # [32] \<and>
    last (snd (fst (Scan (ScanN n (NewScanner ([35, 97] @ 98 # 44 # [32])))))) = 98 \<and>
    pending (ScanN (Suc n) (NewScanner ([35, 97] @ 98 # 44 # [32]))) = 44 # [32] \<and>
    snd (fst (Scan (ScanN (Suc n) (NewScanner ([35, 97] @ 98 # 44 # [32]))))) =
      (if isWhitespace 44 then 44 # takeWhile isWhitespace [32] else [44]))"
proof -
  have h1: "isLetter 98" by (simp add: isLetter_def)
  have h2: "\<not> isLetter 44" by (simp add: isLetter_def)
  have h3: "\<not> isDigit 44" by (simp add: isDigit_def)
  have h4: "44 \<noteq> eof" by (simp add: eof_def)
  show ?thesis
    using h1 h2 h3 h4 C5_identifier_boundary [OF h1 h2 h3 h4, of "[35, 97]" "[32]"] by blast
qed

text \<open>
  Claim C5 as stated fails when the character after the letter is U+0000: on the input
  \<open>a\<close>, \<open>b\<close>, U+0000, \<open>,\<close> the first call returns the identifier \<open>ab\<close> and has consumed the
  U+0000; the next call returns the comma.
\<close>

theorem C5_nul_after_identifier_counterexample:
  "isLetter 98 \<and> \<not> isLetter 0 \<and> \<not> isDigit 0 \<and>
   Scan (NewScanner [97, 98, 0, 44]) = ((IDENT, [97, 98]), \<lparr>pending = [44], lastRune = Some 0\<rparr>) \<and>
   fst (Scan (snd (Scan (NewScanner [97, 98, 0, 44])))) = (COMMA, [44])"
  by code_simp

subsection \<open>Single characters and the worked example\<close>

text \<open>
  Claim C6. Scanning each of the one-character inputs \<open>[\<close>, \<open>]\<close>, \<open>#\<close>, \<open>(\<close>, \<open>)\<close>, \<open>$\<close>, the
  euro sign, \<open>~\<close> and \<open>-\<close> alone yields exactly one token, of kind \<open>STATUS_OPEN\<close>,
  \<open>STATUS_CLOSE\<close>, \<open>HASHTAG\<close>, \<open>BRACKET\<close>, \<open>BRACKET\<close>, \<open>CURRENCY_SIGN\<close>, \<open>CURRENCY_SIGN\<close>,
  \<open>TILDE\<close> and \<open>DASH\<close> respectively, with the input character as its lexeme, followed by
  the end-of-stream token.
\<close>

theorem C6_single_character_classes:
  "scanAll (NewScanner [91]) = [(STATUS_OPEN, [91]), (EOF, [eof])] \<and>
   scanAll (NewScanner [93]) = [(STATUS_CLOSE, [93]), (EOF, [eof])] \<and>
   scanAll (NewScanner [35]) = [(HASHTAG, [35]), (EOF, [eof])] \<and>
   scanAll (NewScanner [40]) = [(BRACKET, [40]), (EOF, [eof])] \<and>
   scanAll (NewScanner [41]) = [(BRACKET, [41]), (EOF, [eof])] \<and>
   scanAll (NewScanner [36]) = [(CURRENCY_SIGN, [36]), (EOF, [eof])] \<and>
   scanAll (NewScanner [8364]) = [(CURRENCY_SIGN, [8364]), (EOF, [eof])] \<and>
   scanAll (NewScanner [126]) = [(TILDE, [126]), (EOF, [eof])] \<and>
   scanAll (NewScanner [45]) = [(DASH, [45]), (EOF, [eof])]"
  by code_simp

text \<open>
  Claim C7. Scanning the seventeen characters \<open>#today [x] 5\<close>, euro sign, space, a-umlaut
  (U+00E4), \<open>_b\<close> yields the thirteen tokens of the example and then end-of-stream; the
  underscore is a token of its own between the identifiers a-umlaut and \<open>b\<close>.
\<close>

theorem C7_end_to_end_example:
  "scanAll (NewScanner
     [35, 116, 111, 100, 97, 121, 32, 91, 120, 93, 32, 53, 8364, 32, 228, 95, 98]) =
   [(HASHTAG, [35]), (IDENT, [116, 111, 100, 97, 121]), (WS, [32]), (STATUS_OPEN, [91]),
    (IDENT, [120]), (STATUS_CLOSE, [93]), (WS, [32]), (IDENT, [53]),
    (CURRENCY_SIGN, [8364]), (WS, [32]), (IDENT, [228]), (UNDERSCORE, [95]),
    (IDENT, [98]), (EOF, [eof])]"
  by code_simp

subsection \<open>Character classification\<close>

lemma spec_identifier_character_eq: "spec_identifier_character = isIdentRune"
  by (rule ext) (auto simp: spec_identifier_character_def isIdentRune_def isLetter_def isDigit_def)

lemma scanIdent_kind: "fst (fst (scanIdent s)) = IDENT"
  by (simp add: scanIdent_def split: prod.splits)

text \<open>
  Claim C8. Let \<open>c\<close> be the character a call of \<open>Scan\<close> reads. The call hands over to the
  identifier-run rule (it pushes \<open>c\<close> back and returns what \<open>scanIdent\<close> returns) if and only
  if \<open>c\<close> is an identifier character in the words of the specification. In that case the
  token is an identifier whose lexeme is \<open>c\<close> and the longest run of identifier characters
  after it, letters and digits alike, whether \<open>c\<close> is a letter or a digit.
\<close>

theorem C8_identifier_characters:
  assumes "pending s = c # cs"
  shows "(Scan s = scanIdent (UnreadRune (snd (read s)))) = spec_identifier_character c \<and>
    (spec_identifier_character c \<longrightarrow>
       fst (Scan s) = (IDENT, c # takeWhile spec_identifier_character cs))"
proof (cases "isIdentRune c")
  case True
  then have "\<not> isWhitespace c" using isWhitespace_not_ident by auto
  with True assms have a: "Scan s = scanIdent (UnreadRune (snd (read s)))"
    by (simp add: Scan_def read_Cons isIdentRune_def)
  have b: "fst (Scan s) = (IDENT, c # takeWhile isIdentRune cs)"
    by (simp add: Scan_ident [OF assms True])
  from True a b show ?thesis
    unfolding spec_identifier_character_eq by blast
next
  case False
  with assms have "fst (fst (Scan s)) \<noteq> IDENT"
    by (simp add: Scan_kind_IDENT)
  then have "Scan s \<noteq> scanIdent (UnreadRune (snd (read s)))"
    using scanIdent_kind [of "UnreadRune (snd (read s))"] by auto
  with False show ?thesis
    by (simp add: spec_identifier_character_eq)
qed

theorem C8_identifier_characters_witness:
  "pending (NewScanner [53, 97, 49, 44]) = 53 # [97, 49, 44] \<and>
   spec_identifier_character 53 \<and>
   Scan (NewScanner [53, 97, 49, 44]) =
     scanIdent (UnreadRune (snd (read (NewScanner [53, 97, 49, 44])))) \<and>
   fst (Scan (NewScanner [53, 97, 49, 44])) = (IDENT, [53, 97, 49])"
proof -
  have h: "pending (NewScanner [53, 97, 49, 44]) = 53 # [97, 49, 44]"
    by (simp add: NewScanner_def)
  have c: "spec_identifier_character 53"
    by (simp add: spec_identifier_character_def)
  have t: "takeWhile spec_identifier_character [97, 49, 44] = [97, 49]"
    by (simp add: spec_identifier_character_def)
  show ?thesis
    using h c C8_identifier_characters [OF h, unfolded t] by blast
qed

text \<open>
  Claim C9, amended. \<open>Scan\<close> is a total function into tokens (its loops are shown to
  terminate above, and its result type has no error value). For every single character
  other than U+0000 that is not whitespace, not a letter or digit and not in the symbol
  table, \<open>Scan\<close> returns a token of kind \<open>ILLEGAL\<close> whose lexeme is that one character, and
  has consumed that character only.
\<close>

theorem C9_unrecognized_characters:
  assumes "pending s = c # cs" and "c \<noteq> eof"
    and "\<not> isWhitespace c" and "\<not> isLetter c" and "\<not> isDigit c"
    and "c \<notin> set symbolTable"
  shows "Scan s = ((ILLEGAL, [c]), \<lparr>pending = cs, lastRune = Some c\<rparr>)"
  using assms by (simp add: Scan_def read_Cons symbolTable_def)

theorem C9_unrecognized_characters_witness:
  "pending (NewScanner [33, 97]) = 33 # [97] \<and> 33 \<noteq> eof \<and>
   \<not> isWhitespace 33 \<and> \<not> isLetter 33 \<and> \<not> isDigit 33 \<and> 33 \<notin> set symbolTable \<and>
   Scan (NewScanner [33, 97]) = ((ILLEGAL, [33]), \<lparr>pending = [97], lastRune = Some 33\<rparr>)"
proof -
  have h1: "pending (NewScanner [33, 97]) = 33 # [97]" by (simp add: NewScanner_def)
  have h2: "33 \<noteq> eof" by (simp add: eof_def)
  have h3: "\<not> isWhitespace 33" by (simp add: isWhitespace_def)
  have h4: "\<not> isLetter 33" by (simp add: isLetter_def)
  have h5: "\<not> isDigit 33" by (simp add: isDigit_def)
  have h6: "33 \<notin> set symbolTable" by (simp add: symbolTable_def)
  show ?thesis
    using h1 h2 h3 h4 h5 h6 C9_unrecognized_characters [OF h1 h2 h3 h4 h5 h6] by simp
qed

text \<open>
  Claim C9 as stated fails for the character U+0000: it is not whitespace, not a letter,
  not a digit and not in the symbol table, and \<open>Scan\<close> returns an \<open>EOF\<close> token for it.
\<close>

theorem C9_nul_is_not_illegal_counterexample:
  "\<not> isWhitespace 0 \<and> \<not> isLetter 0 \<and> \<not> isDigit 0 \<and> 0 \<notin> set symbolTable \<and>
   fst (Scan (NewScanner [0])) = (EOF, [0]) \<and>
   Scan (NewScanner [0, 33]) = ((EOF, [0]), \<lparr>pending = [33], lastRune = Some 0\<rparr>)"
  by code_simp

subsection \<open>Well-formed tokens\<close>

text \<open>
  Claim C10. Every token that a call of \<open>Scan\<close> returns, from any state of the scanner, has
  a non-empty lexeme; the lexeme of a whitespace-run token holds only space, tab and
  newline; the lexeme of an identifier-run token holds only letters and digits; the
  lexeme of every other token (single-character class, unrecognized, end-of-stream) is
  exactly one character long.
\<close>

theorem C10_token_well_formed:
  "snd (fst (Scan s)) \<noteq> [] \<and>
   (fst (fst (Scan s)) = WS \<longrightarrow> list_all isWhitespace (snd (fst (Scan s)))) \<and>
   (fst (fst (Scan s)) = IDENT \<longrightarrow>
      list_all (\<lambda>ch. isLetter ch \<or> isDigit ch) (snd (fst (Scan s)))) \<and>
   (fst (fst (Scan s)) \<noteq> WS \<and> fst (fst (Scan s)) \<noteq> IDENT \<longrightarrow>
      length (snd (fst (Scan s))) = 1)"
proof (cases s rule: Scan_cases)
  case exhausted
  then show ?thesis by (simp add: Scan_Nil)
next
  case (ws c cs)
  have "list_all isWhitespace (takeWhile isWhitespace cs)"
    by (auto simp: list_all_iff dest: set_takeWhileD)
  with ws show ?thesis by (simp add: Scan_ws)
next
  case (ident c cs)
  have "list_all isIdentRune (takeWhile isIdentRune cs)"
    by (auto simp: list_all_iff dest: set_takeWhileD)
  with ident show ?thesis by (simp add: Scan_ident isIdentRune_def [abs_def])
next
  case (single c cs)
  then show ?thesis by (simp add: Scan_single)
qed

theorem C10_token_well_formed_witness:
  "fst (fst (Scan (NewScanner [32, 9, 97]))) = WS \<and>
   snd (fst (Scan (NewScanner [32, 9, 97]))) \<noteq> [] \<and>
   list_all isWhitespace (snd (fst (Scan (NewScanner [32, 9, 97])))) \<and>
   fst (fst (Scan (NewScanner [97, 49, 32]))) = IDENT \<and>
   list_all (\<lambda>ch. isLetter ch \<or> isDigit ch) (snd (fst (Scan (NewScanner [97, 49, 32])))) \<and>
   fst (fst (Scan (NewScanner [8364, 49]))) \<noteq> WS \<and>
   fst (fst (Scan (NewScanner [8364, 49]))) \<noteq> IDENT \<and>
   length (snd (fst (Scan (NewScanner [8364, 49])))) = 1"
proof -
  have k1: "fst (fst (Scan (NewScanner [32, 9, 97]))) = WS" by code_simp
  have k2: "fst (fst (Scan (NewScanner [97, 49, 32]))) = IDENT" by code_simp
  have k3: "fst (fst (Scan (NewScanner [8364, 49]))) \<noteq> WS"
    "fst (fst (Scan (NewScanner [8364, 49]))) \<noteq> IDENT" by code_simp+
  show ?thesis
    using k1 k2 k3 C10_token_well_formed [of "NewScanner [32, 9, 97]"]
      C10_token_well_formed [of "NewScanner [97, 49, 32]"]
      C10_token_well_formed [of "NewScanner [8364, 49]"]
    by blast
qed

end
